theory Spec2Isabelle
  imports Complex_Main "HOL-Library.Sublist"
begin

section \<open>The entropy analyzer of tools/main.py\<close>

text \<open>
  The program walks a Python syntax tree with an \<^verbatim>\<open>ast.NodeVisitor\<close>, keeps a stack of
  open scopes, counts call expressions per function and prints, when a scope closes, its
  name, its count and its entropy. Python's unbounded integers are \<^typ>\<open>int\<close>. The
  entropies are Python floats; they are modelled as exact rationals (\<^typ>\<open>rat\<close>), so
  rounding of the binary representation is outside the model. Exceptions are values of
  \<open>exn\<close>; an exception that leaves the visitor carries the analyzer state reached when
  it was raised, since what was printed before stays printed.
\<close>

subsection \<open>Exceptions and Python list indexing\<close>

datatype exn = IndexError | KeyError | TypeError | ZeroDivisionError

text \<open>
  \<^verbatim>\<open>xs[i]\<close>: an index from \<open>0\<close> to \<open>len - 1\<close> counts from the front, an index from
  \<open>-len\<close> to \<open>-1\<close> from the back, anything else raises IndexError (\<open>None\<close> here).
\<close>

definition py_index :: "'a list \<Rightarrow> int \<Rightarrow> nat option" where
  "py_index xs i =
     (let n = int (length xs) in
      if 0 \<le> i \<and> i < n then Some (nat i)
      else if - n \<le> i \<and> i < 0 then Some (nat (n + i))
      else None)"

subsection \<open>func_entropy and reduce\<close>

definition MAX_CALLS :: int where
  "MAX_CALLS = 10"

text \<open>
  \<^verbatim>\<open>max(min(1 - (n_calls / max_calls), 1), 0)\<close>; the true division raises
  ZeroDivisionError on a zero divisor.
\<close>

definition func_entropy :: "int \<Rightarrow> int \<Rightarrow> exn + rat" where
  "func_entropy n_calls max_calls =
     (if max_calls = 0 then Inl ZeroDivisionError
      else Inr (max (min (1 - (of_int n_calls / of_int max_calls)) 1) 0))"

text \<open>
  \<^verbatim>\<open>reduce(lambda x, y: x * y, seq)\<close> with no initial value: a left fold that starts from
  the first element, and TypeError on an empty sequence.
\<close>

definition reduce_mul :: "rat list \<Rightarrow> exn + rat" where
  "reduce_mul seq = (case seq of [] \<Rightarrow> Inl TypeError | x # r \<Rightarrow> Inr (foldl (*) x r))"

subsection \<open>class Stack\<close>

text \<open>The two private fields: the list \<^verbatim>\<open>__inner\<close> and the index \<^verbatim>\<open>__depth\<close>.\<close>

record 'a Stack =
  inner :: "'a list"
  depth :: int

definition Stack_init :: "'a Stack" where
  "Stack_init = \<lparr>inner = [], depth = - 1\<rparr>"

definition push :: "'a Stack \<Rightarrow> 'a \<Rightarrow> 'a Stack" where
  "push stk e = \<lparr>inner = inner stk @ [e], depth = depth stk + 1\<rparr>"

text \<open>
  \<^verbatim>\<open>pop\<close> reads \<^verbatim>\<open>__inner[__depth]\<close> first; when that raises, nothing has been changed.
\<close>

definition pop :: "'a Stack \<Rightarrow> exn + ('a \<times> 'a Stack)" where
  "pop stk =
     (case py_index (inner stk) (depth stk) of
        None \<Rightarrow> Inl IndexError
      | Some k \<Rightarrow>
          Inr (inner stk ! k,
               \<lparr>inner = take k (inner stk) @ drop (Suc k) (inner stk),
                depth = depth stk - 1\<rparr>))"

definition peek :: "'a Stack \<Rightarrow> exn + 'a" where
  "peek stk =
     (case py_index (inner stk) (depth stk) of
        None \<Rightarrow> Inl IndexError
      | Some k \<Rightarrow> Inr (inner stk ! k))"

definition len :: "'a Stack \<Rightarrow> nat" where
  "len stk = length (inner stk)"

text \<open>
  A client of the stack: a sequence of \<^verbatim>\<open>push\<close> and \<^verbatim>\<open>pop\<close> calls on one object. A
  \<^verbatim>\<open>pop\<close> that raises leaves the object as it was, and the sequence goes on (the caller
  caught the exception).
\<close>

datatype 'a stack_op = Push 'a | Pop

fun run_op :: "'a Stack \<Rightarrow> 'a stack_op \<Rightarrow> 'a Stack" where
  "run_op stk (Push e) = push stk e"
| "run_op stk Pop = (case pop stk of Inl _ \<Rightarrow> stk | Inr (_, stk') \<Rightarrow> stk')"

definition run_ops :: "'a stack_op list \<Rightarrow> 'a Stack" where
  "run_ops ops = foldl run_op Stack_init ops"

definition stack_inv :: "'a Stack \<Rightarrow> bool" where
  "stack_inv stk \<longleftrightarrow> depth stk = int (length (inner stk)) - 1"

subsection \<open>Syntax trees\<close>

text \<open>
  \<^verbatim>\<open>ast.NodeVisitor.visit\<close> dispatches on the class of the node: \<^verbatim>\<open>ClassDef\<close>,
  \<^verbatim>\<open>FunctionDef\<close> and \<^verbatim>\<open>Call\<close> have a method in \<^verbatim>\<open>Analyzer\<close>, every other class falls
  to \<^verbatim>\<open>generic_visit\<close>. A node carries its child nodes in field order (for a class or
  a function they include decorators, base classes and default values, not only the
  body); the two definitions carry their name as well.
\<close>

datatype node =
    ClassDef string "node list"
  | FunctionDef string "node list"
  | Call "node list"
  | Other "node list"

subsection \<open>class Analyzer\<close>

text \<open>
  The dictionaries pushed on the stack have one of two shapes:
  \<^verbatim>\<open>{"type": "class", "functions": [...]}\<close> and \<^verbatim>\<open>{"type": "func", "calls": n}\<close>.
  Reading the key \<^verbatim>\<open>"calls"\<close> of the first or \<^verbatim>\<open>"functions"\<close> of the second raises
  KeyError.
\<close>

datatype ctx = ClassCtx "rat list" | FuncCtx int

datatype scope = Class | Function

text \<open>
  One block of printed lines: the keyword and the name, the count, and the entropy that
  is handed to \<^verbatim>\<open>percent\<close> for display.
\<close>

record result =
  r_scope :: scope
  r_name :: string
  r_count :: int
  r_entropy :: rat

text \<open>The analyzer object (its stack) together with what has been printed so far.\<close>

record Analyzer =
  stack :: "ctx Stack"
  out :: "result list"

definition Analyzer_init :: Analyzer where
  "Analyzer_init = \<lparr>stack = Stack_init, out = []\<rparr>"

type_synonym outcome = "(exn \<times> Analyzer) + Analyzer"

text \<open>\<^verbatim>\<open>self.stack.peek["calls"] += 1\<close>: the dictionary on the stack is updated in place.\<close>

definition incr_calls :: "ctx Stack \<Rightarrow> exn + ctx Stack" where
  "incr_calls stk =
     (case py_index (inner stk) (depth stk) of
        None \<Rightarrow> Inl IndexError
      | Some k \<Rightarrow>
          (case inner stk ! k of
             ClassCtx fs \<Rightarrow> Inl KeyError
           | FuncCtx c \<Rightarrow> Inr (stk\<lparr>inner := (inner stk)[k := FuncCtx (c + 1)]\<rparr>)))"

text \<open>\<^verbatim>\<open>self.stack.peek["functions"].append(entropy)\<close>, in place as well.\<close>

definition append_function :: "ctx Stack \<Rightarrow> rat \<Rightarrow> exn + ctx Stack" where
  "append_function stk entropy =
     (case py_index (inner stk) (depth stk) of
        None \<Rightarrow> Inl IndexError
      | Some k \<Rightarrow>
          (case inner stk ! k of
             ClassCtx fs \<Rightarrow> Inr (stk\<lparr>inner := (inner stk)[k := ClassCtx (fs @ [entropy])]\<rparr>)
           | FuncCtx c \<Rightarrow> Inl KeyError))"

text \<open>\<^verbatim>\<open>ctx["type"] == "class"\<close>\<close>

fun is_class :: "ctx \<Rightarrow> bool" where
  "is_class (ClassCtx fs) = True"
| "is_class (FuncCtx c) = False"

text \<open>
  What \<^verbatim>\<open>visit_ClassDef\<close> does after \<^verbatim>\<open>generic_visit\<close> has returned (lines 47 to 52):
  pop, reduce, print.
\<close>

definition visit_ClassDef_exit :: "string \<Rightarrow> Analyzer \<Rightarrow> outcome" where
  "visit_ClassDef_exit name s =
     (case pop (stack s) of
        Inl e \<Rightarrow> Inl (e, s)
      | Inr (infos, stk) \<Rightarrow>
          let s1 = s\<lparr>stack := stk\<rparr> in
          (case infos of
             FuncCtx c \<Rightarrow> Inl (KeyError, s1)
           | ClassCtx functions \<Rightarrow>
               (case reduce_mul functions of
                  Inl e \<Rightarrow> Inl (e, s1)
                | Inr entropy \<Rightarrow>
                    Inr (s1\<lparr>out := out s1 @
                           [\<lparr>r_scope = Class, r_name = name,
                             r_count = int (length functions), r_entropy = entropy\<rparr>]\<rparr>))))"

text \<open>
  What \<^verbatim>\<open>visit_FunctionDef\<close> does after \<^verbatim>\<open>generic_visit\<close> has returned (lines 60 to
  68): pop, func_entropy, print, and the append to a class on top of the stack.
\<close>

definition visit_FunctionDef_exit :: "string \<Rightarrow> Analyzer \<Rightarrow> outcome" where
  "visit_FunctionDef_exit name s =
     (case pop (stack s) of
        Inl e \<Rightarrow> Inl (e, s)
      | Inr (infos, stk) \<Rightarrow>
          let s1 = s\<lparr>stack := stk\<rparr> in
          (case infos of
             ClassCtx fs \<Rightarrow> Inl (KeyError, s1)
           | FuncCtx calls \<Rightarrow>
               (case func_entropy calls MAX_CALLS of
                  Inl e \<Rightarrow> Inl (e, s1)
                | Inr entropy \<Rightarrow>
                    let s2 = s1\<lparr>out := out s1 @
                               [\<lparr>r_scope = Function, r_name = name,
                                 r_count = calls, r_entropy = entropy\<rparr>]\<rparr> in
                    if len (stack s2) \<noteq> 0 then
                      (case peek (stack s2) of
                         Inl e \<Rightarrow> Inl (e, s2)
                       | Inr t \<Rightarrow>
                           if is_class t then
                             (case append_function (stack s2) entropy of
                                Inl e \<Rightarrow> Inl (e, s2)
                              | Inr stk' \<Rightarrow> Inr (s2\<lparr>stack := stk'\<rparr>))
                           else Inr s2)
                    else Inr s2)))"

text \<open>
  \<^verbatim>\<open>visit\<close> with its three methods, and the loop of \<^verbatim>\<open>generic_visit\<close> over the children
  of a node. \<^verbatim>\<open>if self.stack\<close> in \<^verbatim>\<open>visit_Call\<close> is the truth value of the object, which
  Python takes from \<^verbatim>\<open>__len__\<close>.
\<close>

fun visit :: "node \<Rightarrow> Analyzer \<Rightarrow> outcome"
  and generic_visit :: "node list \<Rightarrow> Analyzer \<Rightarrow> outcome" where
  "visit (ClassDef name body) s =
     (case generic_visit body (s\<lparr>stack := push (stack s) (ClassCtx [])\<rparr>) of
        Inl x \<Rightarrow> Inl x
      | Inr s' \<Rightarrow> visit_ClassDef_exit name s')"
| "visit (FunctionDef name body) s =
     (case generic_visit body (s\<lparr>stack := push (stack s) (FuncCtx 0)\<rparr>) of
        Inl x \<Rightarrow> Inl x
      | Inr s' \<Rightarrow> visit_FunctionDef_exit name s')"
| "visit (Call children) s =
     (if len (stack s) \<noteq> 0 then
        (case incr_calls (stack s) of
           Inl e \<Rightarrow> Inl (e, s)
         | Inr stk \<Rightarrow> generic_visit children (s\<lparr>stack := stk\<rparr>))
      else generic_visit children s)"
| "visit (Other children) s = generic_visit children s"
| "generic_visit [] s = Inr s"
| "generic_visit (c # cs) s =
     (case visit c s of
        Inl x \<Rightarrow> Inl x
      | Inr s' \<Rightarrow> generic_visit cs s')"

text \<open>\<^verbatim>\<open>main\<close> after parsing: a fresh \<^verbatim>\<open>Analyzer()\<close> visits the tree.\<close>

definition analyze :: "node \<Rightarrow> outcome" where
  "analyze tree = visit tree Analyzer_init"

section \<open>Functions of the tree used in the statements\<close>

text \<open>
  The call expressions of a subtree that are reached without entering a class or a
  function definition: those a visit of the subtree counts on the context that is on top
  when it starts.
\<close>

fun own_calls :: "node \<Rightarrow> int" and own_calls_list :: "node list \<Rightarrow> int" where
  "own_calls (ClassDef name body) = 0"
| "own_calls (FunctionDef name body) = 0"
| "own_calls (Call children) = 1 + own_calls_list children"
| "own_calls (Other children) = own_calls_list children"
| "own_calls_list [] = 0"
| "own_calls_list (c # cs) = own_calls c + own_calls_list cs"

text \<open>
  The call expressions of a subtree whose nearest enclosing function definition lies
  outside the subtree: class definitions are entered, function definitions are not.
\<close>

fun fn_calls :: "node \<Rightarrow> int" and fn_calls_list :: "node list \<Rightarrow> int" where
  "fn_calls (ClassDef name body) = fn_calls_list body"
| "fn_calls (FunctionDef name body) = 0"
| "fn_calls (Call children) = 1 + fn_calls_list children"
| "fn_calls (Other children) = fn_calls_list children"
| "fn_calls_list [] = 0"
| "fn_calls_list (c # cs) = fn_calls c + fn_calls_list cs"

text \<open>The score of the specification: \<open>1 - n / 10\<close> clamped to the interval from 0 to 1.\<close>

definition clamp_score :: "int \<Rightarrow> rat" where
  "clamp_score n = max (min (1 - of_int n / 10) 1) 0"

text \<open>
  The scores a visit of a subtree appends to a class context on top: one per function
  definition reached without entering another definition.
\<close>

fun own_scores :: "node \<Rightarrow> rat list" and own_scores_list :: "node list \<Rightarrow> rat list" where
  "own_scores (ClassDef name body) = []"
| "own_scores (FunctionDef name body) = [clamp_score (own_calls_list body)]"
| "own_scores (Call children) = own_scores_list children"
| "own_scores (Other children) = own_scores_list children"
| "own_scores_list [] = []"
| "own_scores_list (c # cs) = own_scores c @ own_scores_list cs"

text \<open>The results of a subtree in the order in which its scopes close.\<close>

fun emits :: "node \<Rightarrow> result list" and emits_list :: "node list \<Rightarrow> result list" where
  "emits (ClassDef name body) =
     emits_list body @
     [\<lparr>r_scope = Class, r_name = name,
       r_count = int (length (own_scores_list body)),
       r_entropy = prod_list (own_scores_list body)\<rparr>]"
| "emits (FunctionDef name body) =
     emits_list body @
     [\<lparr>r_scope = Function, r_name = name,
       r_count = own_calls_list body,
       r_entropy = clamp_score (own_calls_list body)\<rparr>]"
| "emits (Call children) = emits_list children"
| "emits (Other children) = emits_list children"
| "emits_list [] = []"
| "emits_list (c # cs) = emits c @ emits_list cs"

text \<open>The change of one context: \<open>k\<close> calls more, or the scores \<open>sc\<close> appended.\<close>

fun bump :: "int \<Rightarrow> rat list \<Rightarrow> ctx \<Rightarrow> ctx" where
  "bump k sc (FuncCtx c) = FuncCtx (c + k)"
| "bump k sc (ClassCtx fs) = ClassCtx (fs @ sc)"

text \<open>A change of the last element of a list, if there is one.\<close>

definition top_apply :: "('a \<Rightarrow> 'a) \<Rightarrow> 'a list \<Rightarrow> 'a list" where
  "top_apply f xs = (if xs = [] then [] else butlast xs @ [f (last xs)])"

text \<open>The stack object that holds the list \<open>xs\<close> with its depth index in step.\<close>

definition stack_of :: "'a list \<Rightarrow> 'a Stack" where
  "stack_of xs = \<lparr>inner = xs, depth = int (length xs) - 1\<rparr>"

text \<open>The counter of a context, if it has one, and the kind of scope it stands for.\<close>

fun calls_of :: "ctx \<Rightarrow> int option" where
  "calls_of (FuncCtx c) = Some c"
| "calls_of (ClassCtx fs) = None"

fun scope_of :: "ctx \<Rightarrow> scope" where
  "scope_of (ClassCtx fs) = Class"
| "scope_of (FuncCtx c) = Function"

text \<open>The keyword and the name of a printed block.\<close>

definition label :: "result \<Rightarrow> scope \<times> string" where
  "label r = (r_scope r, r_name r)"

text \<open>The class and function definitions of a tree in post-order: a scope comes after
  every scope inside it, and siblings come in source order.\<close>

fun postorder :: "node \<Rightarrow> (scope \<times> string) list"
  and postorder_list :: "node list \<Rightarrow> (scope \<times> string) list" where
  "postorder (ClassDef name body) = postorder_list body @ [(Class, name)]"
| "postorder (FunctionDef name body) = postorder_list body @ [(Function, name)]"
| "postorder (Call children) = postorder_list children"
| "postorder (Other children) = postorder_list children"
| "postorder_list [] = []"
| "postorder_list (c # cs) = postorder c @ postorder_list cs"

text \<open>The analyzer state an outcome ends in, whether the visitor returned or raised.\<close>

fun final :: "outcome \<Rightarrow> Analyzer" where
  "final (Inl (e, s)) = s"
| "final (Inr s) = s"



text \<open>A subtree without class and function definitions.\<close>

fun scope_free :: "node \<Rightarrow> bool" and scope_free_list :: "node list \<Rightarrow> bool" where
  "scope_free (ClassDef name body) = False"
| "scope_free (FunctionDef name body) = False"
| "scope_free (Call children) = scope_free_list children"
| "scope_free (Other children) = scope_free_list children"
| "scope_free_list [] = True"
| "scope_free_list (c # cs) = (scope_free c \<and> scope_free_list cs)"

section \<open>The stack\<close>

lemma py_index_last:
  "py_index (xs @ [e]) (int (length xs)) = Some (length xs)"
  by (simp add: py_index_def)

lemma stack_inv_init: "stack_inv Stack_init"
  by (simp add: stack_inv_def Stack_init_def)

lemma stack_inv_push: "stack_inv stk \<Longrightarrow> stack_inv (push stk e)"
  by (simp add: stack_inv_def push_def)

lemma pop_push:
  assumes "stack_inv stk"
  shows "pop (push stk e) = Inr (e, stk)"
proof (cases stk)
  case (fields xs d)
  with assms have "d + 1 = int (length xs)"
    by (simp add: stack_inv_def)
  with fields show ?thesis
    by (simp add: pop_def push_def py_index_last)
qed

lemma py_index_inv_snoc:
  "py_index (xs @ [e]) (int (length (xs @ [e])) - 1) = Some (length xs)"
  by (simp add: py_index_def)

lemma stack_inv_pop:
  assumes "stack_inv stk" and "pop stk = Inr (e, stk')"
  shows "stack_inv stk'"
proof (cases "inner stk" rule: rev_cases)
  case Nil
  with assms show ?thesis
    by (simp add: pop_def stack_inv_def py_index_def)
next
  case (snoc xs x)
  with assms(1) have "py_index (inner stk) (depth stk) = Some (length xs)"
    using py_index_inv_snoc [of xs x] by (simp add: stack_inv_def)
  with assms snoc show ?thesis
    by (auto simp: pop_def stack_inv_def)
qed

lemma stack_inv_run_op: "stack_inv stk \<Longrightarrow> stack_inv (run_op stk x)"
  by (cases x) (auto simp: stack_inv_push split: sum.splits dest: stack_inv_pop)

lemma stack_inv_foldl: "stack_inv stk \<Longrightarrow> stack_inv (foldl run_op stk ops)"
  by (induction ops arbitrary: stk) (simp_all add: stack_inv_run_op)

lemma stack_inv_run_ops: "stack_inv (run_ops ops)"
  unfolding run_ops_def by (rule stack_inv_foldl [OF stack_inv_init])

text \<open>
  Claim C10. For every state \<open>run_ops ops\<close> that a Stack object can reach from its
  constructor by pushes and pops, and every element \<open>e\<close>: \<open>pop\<close> after \<open>push\<close> of \<open>e\<close>
  returns \<open>e\<close> and gives the state back, and the depth index of the state is the length of
  the inner list minus one.
\<close>

theorem stack_lifo_round_trip:
  "pop (push (run_ops ops) e) = Inr (e, run_ops ops) \<and>
   depth (run_ops ops) = int (length (inner (run_ops ops))) - 1"
proof
  show "pop (push (run_ops ops) e) = Inr (e, run_ops ops)"
    by (rule pop_push [OF stack_inv_run_ops])
  show "depth (run_ops ops) = int (length (inner (run_ops ops))) - 1"
    using stack_inv_run_ops [of ops] by (simp add: stack_inv_def)
qed

section \<open>The stack with its index in step\<close>

lemma top_apply_Nil [simp]: "top_apply f [] = []"
  by (simp add: top_apply_def)

lemma top_apply_snoc [simp]: "top_apply f (xs @ [x]) = xs @ [f x]"
  by (simp add: top_apply_def)

lemma bump_bump: "bump k2 sc2 (bump k1 sc1 c) = bump (k1 + k2) (sc1 @ sc2) c"
  by (cases c) simp_all

lemma bump_zero [simp]: "bump 0 [] c = c"
  by (cases c) simp_all

lemma stack_inv_iff: "stack_inv stk \<longleftrightarrow> stk = stack_of (inner stk)"
  by (cases stk) (auto simp: stack_inv_def stack_of_def)

lemma inner_stack_of [simp]: "inner (stack_of xs) = xs"
  by (simp add: stack_of_def)

lemma stack_of_inject [simp]: "stack_of xs = stack_of ys \<longleftrightarrow> xs = ys"
  by (auto simp: stack_of_def)

lemma Stack_init_stack_of: "Stack_init = stack_of []"
  by (simp add: Stack_init_def stack_of_def)

lemma push_stack_of [simp]: "push (stack_of xs) e = stack_of (xs @ [e])"
  by (simp add: push_def stack_of_def)

lemma len_stack_of [simp]: "len (stack_of xs) = length xs"
  by (simp add: len_def)

lemma py_index_empty: "py_index [] (- 1) = None"
  by (simp add: py_index_def)

lemma py_index_snoc: "py_index (ys @ [y]) (int (length ys)) = Some (length ys)"
  by (simp add: py_index_def)

lemma pop_stack_of_Nil [simp]: "pop (stack_of []) = Inl IndexError"
  by (simp add: pop_def stack_of_def py_index_empty)

lemma pop_stack_of:
  "xs \<noteq> [] \<Longrightarrow> pop (stack_of xs) = Inr (last xs, stack_of (butlast xs))"
  by (cases xs rule: rev_cases) (simp_all add: pop_def stack_of_def py_index_snoc)

lemma peek_stack_of: "xs \<noteq> [] \<Longrightarrow> peek (stack_of xs) = Inr (last xs)"
  by (cases xs rule: rev_cases) (simp_all add: peek_def stack_of_def py_index_snoc)

lemma incr_calls_stack_of:
  "xs \<noteq> [] \<Longrightarrow> incr_calls (stack_of xs) =
     (case last xs of
        ClassCtx fs \<Rightarrow> Inl KeyError
      | FuncCtx c \<Rightarrow> Inr (stack_of (top_apply (bump 1 []) xs)))"
  by (cases xs rule: rev_cases)
    (simp_all add: incr_calls_def stack_of_def py_index_snoc split: ctx.splits)

lemma append_function_stack_of:
  "xs \<noteq> [] \<Longrightarrow> append_function (stack_of xs) e =
     (case last xs of
        ClassCtx fs \<Rightarrow> Inr (stack_of (top_apply (bump 0 [e]) xs))
      | FuncCtx c \<Rightarrow> Inl KeyError)"
  by (cases xs rule: rev_cases)
    (simp_all add: append_function_def stack_of_def py_index_snoc split: ctx.splits)

lemma func_entropy_MAX [simp]: "func_entropy n MAX_CALLS = Inr (clamp_score n)"
  by (simp add: func_entropy_def MAX_CALLS_def clamp_score_def)

lemma foldl_mult: "foldl (*) (x::rat) r = x * prod_list r"
  by (induction r arbitrary: x) (simp_all add: mult.assoc)

lemma reduce_mul_Cons: "fs \<noteq> [] \<Longrightarrow> reduce_mul fs = Inr (prod_list fs)"
  by (cases fs) (simp_all add: reduce_mul_def foldl_mult)

lemma reduce_mul_Nil [simp]: "reduce_mul [] = Inl TypeError"
  by (simp add: reduce_mul_def)

lemma class_exit:
  assumes "stack s = stack_of (xs @ [ClassCtx fs])"
  shows "visit_ClassDef_exit name s =
     (if fs = [] then Inl (TypeError, s\<lparr>stack := stack_of xs\<rparr>)
      else Inr (s\<lparr>stack := stack_of xs,
                 out := out s @ [\<lparr>r_scope = Class, r_name = name,
                    r_count = int (length fs), r_entropy = prod_list fs\<rparr>]\<rparr>))"
  using assms by (simp add: visit_ClassDef_exit_def pop_stack_of reduce_mul_Cons)

lemma function_exit:
  assumes "stack s = stack_of (xs @ [FuncCtx c])"
  shows "visit_FunctionDef_exit name s =
     Inr (s\<lparr>stack := stack_of (top_apply (bump 0 [clamp_score c]) xs),
            out := out s @ [\<lparr>r_scope = Function, r_name = name,
                    r_count = c, r_entropy = clamp_score c\<rparr>]\<rparr>)"
proof (cases "xs = []")
  case True
  with assms show ?thesis
    by (simp add: visit_FunctionDef_exit_def pop_stack_of)
next
  case False
  have "top_apply (bump 0 [clamp_score c]) xs = xs" if "\<not> is_class (last xs)"
    using that False by (cases xs rule: rev_cases; cases "last xs") auto
  with assms False show ?thesis
    by (cases "last xs")
      (simp_all add: visit_FunctionDef_exit_def pop_stack_of peek_stack_of
        append_function_stack_of)
qed

lemma top_apply_bump_bump:
  "top_apply (bump k2 sc2) (top_apply (bump k1 sc1) xs) = top_apply (bump (k1 + k2) (sc1 @ sc2)) xs"
  by (cases xs rule: rev_cases) (simp_all add: bump_bump)

lemma top_apply_ident [simp]: "top_apply (\<lambda>c. c) xs = xs"
  by (cases xs rule: rev_cases) simp_all

lemma visit_ok:
  "stack s = stack_of xs \<Longrightarrow> visit n s = Inr s' \<Longrightarrow>
     stack s' = stack_of (top_apply (bump (own_calls n) (own_scores n)) xs) \<and>
     out s' = out s @ emits n"
  and generic_visit_ok:
  "stack s = stack_of xs \<Longrightarrow> generic_visit cs s = Inr s' \<Longrightarrow>
     stack s' = stack_of (top_apply (bump (own_calls_list cs) (own_scores_list cs)) xs) \<and>
     out s' = out s @ emits_list cs"
proof (induction n s and cs s arbitrary: xs s' and xs s' rule: visit_generic_visit.induct)
  case (1 name body s)
  let ?s1 = "s\<lparr>stack := push (stack s) (ClassCtx [])\<rparr>"
  from "1.prems" obtain s2 where g: "generic_visit body ?s1 = Inr s2"
    and e: "visit_ClassDef_exit name s2 = Inr s'"
    by (auto split: sum.splits)
  have "stack ?s1 = stack_of (xs @ [ClassCtx []])"
    using "1.prems"(1) by simp
  from "1.IH" [OF this g]
  have st: "stack s2 = stack_of (xs @ [ClassCtx (own_scores_list body)])"
    and ou: "out s2 = out s @ emits_list body"
    by simp_all
  from e show ?case
    by (auto simp: class_exit [OF st] ou split: if_splits)
next
  case (2 name body s)
  let ?s1 = "s\<lparr>stack := push (stack s) (FuncCtx 0)\<rparr>"
  from "2.prems" obtain s2 where g: "generic_visit body ?s1 = Inr s2"
    and e: "visit_FunctionDef_exit name s2 = Inr s'"
    by (auto split: sum.splits)
  have "stack ?s1 = stack_of (xs @ [FuncCtx 0])"
    using "2.prems"(1) by simp
  from "2.IH" [OF this g]
  have st: "stack s2 = stack_of (xs @ [FuncCtx (own_calls_list body)])"
    and ou: "out s2 = out s @ emits_list body"
    by simp_all
  from e show ?case
    by (auto simp: function_exit [OF st] ou)
next
  case (3 children s)
  show ?case
  proof (cases "xs = []")
    case True
    with "3.prems" have g: "generic_visit children s = Inr s'"
      by simp
    from "3.IH"(2) [OF _ "3.prems"(1) g] True "3.prems"(1) show ?thesis
      by simp
  next
    case False
    with "3.prems" obtain c where l: "last xs = FuncCtx c"
      by (cases "last xs") (auto simp: incr_calls_stack_of)
    let ?stk = "stack_of (top_apply (bump 1 []) xs)"
    from False l "3.prems" have i: "incr_calls (stack s) = Inr ?stk"
      and g: "generic_visit children (s\<lparr>stack := ?stk\<rparr>) = Inr s'"
      by (simp_all add: incr_calls_stack_of)
    have n0: "len (stack s) \<noteq> 0"
      using False "3.prems"(1) by simp
    have "stack (s\<lparr>stack := ?stk\<rparr>) = ?stk"
      by simp
    from "3.IH"(1) [OF n0 i this g] show ?thesis
      by (simp add: top_apply_bump_bump)
  qed
next
  case (4 children s)
  from "4.prems"(2) have "generic_visit children s = Inr s'"
    by simp
  from "4.IH" [OF "4.prems"(1) this] show ?case
    by simp
next
  case (5 s)
  from "5.prems" have "stack s' = stack_of xs" "out s' = out s"
    by simp_all
  then show ?case
    by simp
next
  case (6 c cs s)
  from "6.prems" obtain s1 where v: "visit c s = Inr s1"
    and g: "generic_visit cs s1 = Inr s'"
    by (auto split: sum.splits)
  note a = "6.IH"(1) [OF "6.prems"(1) v]
  from "6.IH"(2) [OF v conjunct1 [OF a] g] a show ?case
    by (simp add: top_apply_bump_bump)
qed

lemma is_class_bump [simp]: "is_class (bump k sc c) = is_class c"
  by (cases c) simp_all

lemma scope_of_bump [simp]: "scope_of (bump k sc c) = scope_of c"
  by (cases c) simp_all

lemma last_top_apply: "xs \<noteq> [] \<Longrightarrow> last (top_apply f xs) = f (last xs)"
  by (cases xs rule: rev_cases) simp_all

lemma top_apply_eq_Nil [simp]: "top_apply f xs = [] \<longleftrightarrow> xs = []"
  by (cases xs rule: rev_cases) simp_all

lemma map_scope_of_top_apply [simp]:
  "map scope_of (top_apply (bump k sc) xs) = map scope_of xs"
  by (cases xs rule: rev_cases) simp_all

lemma map_calls_of_scores [simp]:
  "map calls_of (top_apply (bump 0 sc) xs) = map calls_of xs"
proof (cases xs rule: rev_cases)
  case (snoc ys y)
  then show ?thesis by (cases y) simp_all
qed simp

lemma visit_calls:
  "stack s = stack_of xs \<Longrightarrow> visit n s = Inr s' \<Longrightarrow>
     fn_calls n = own_calls n \<and> (xs \<noteq> [] \<and> is_class (last xs) \<longrightarrow> own_calls n = 0)"
  and generic_visit_calls:
  "stack s = stack_of xs \<Longrightarrow> generic_visit cs s = Inr s' \<Longrightarrow>
     fn_calls_list cs = own_calls_list cs \<and>
     (xs \<noteq> [] \<and> is_class (last xs) \<longrightarrow> own_calls_list cs = 0)"
proof (induction n s and cs s arbitrary: xs s' and xs s' rule: visit_generic_visit.induct)
  case (1 name body s)
  let ?s1 = "s\<lparr>stack := push (stack s) (ClassCtx [])\<rparr>"
  from "1.prems" obtain s2 where g: "generic_visit body ?s1 = Inr s2"
    by (auto split: sum.splits)
  have "stack ?s1 = stack_of (xs @ [ClassCtx []])"
    using "1.prems"(1) by simp
  from "1.IH" [OF this g] show ?case by simp
next
  case (2 name body s)
  show ?case by simp
next
  case (3 children s)
  show ?case
  proof (cases "xs = []")
    case True
    with "3.prems" have g: "generic_visit children s = Inr s'"
      by simp
    from "3.IH"(2) [OF _ "3.prems"(1) g] True "3.prems"(1) show ?thesis
      by simp
  next
    case False
    with "3.prems" obtain c where l: "last xs = FuncCtx c"
      by (cases "last xs") (auto simp: incr_calls_stack_of)
    let ?stk = "stack_of (top_apply (bump 1 []) xs)"
    from False l "3.prems" have i: "incr_calls (stack s) = Inr ?stk"
      and g: "generic_visit children (s\<lparr>stack := ?stk\<rparr>) = Inr s'"
      by (simp_all add: incr_calls_stack_of)
    have n0: "len (stack s) \<noteq> 0"
      using False "3.prems"(1) by simp
    have "stack (s\<lparr>stack := ?stk\<rparr>) = ?stk"
      by simp
    from "3.IH"(1) [OF n0 i this g] l show ?thesis
      by simp
  qed
next
  case (4 children s)
  from "4.prems"(2) have "generic_visit children s = Inr s'"
    by simp
  from "4.IH" [OF "4.prems"(1) this] show ?case
    by simp
next
  case (5 s)
  from "5.prems" have "stack s' = stack_of xs" "out s' = out s"
    by simp_all
  then show ?case
    by simp
next
  case (6 c cs s)
  from "6.prems" obtain s1 where v: "visit c s = Inr s1"
    and g: "generic_visit cs s1 = Inr s'"
    by (auto split: sum.splits)
  note a = "6.IH"(1) [OF "6.prems"(1) v]
  note st = conjunct1 [OF visit_ok [OF "6.prems"(1) v]]
  from "6.IH"(2) [OF v st g] a show ?case
    by (simp add: last_top_apply)
qed

lemma top_apply_bump_zero [simp]: "top_apply (bump 0 []) xs = xs"
  by (cases xs rule: rev_cases) simp_all

section \<open>The order of the printed blocks\<close>

lemma class_exit_labels:
  "visit_ClassDef_exit name s = Inr s' \<Longrightarrow> map label (out s') = map label (out s) @ [(Class, name)]"
  "visit_ClassDef_exit name s = Inl (e, s') \<Longrightarrow> out s' = out s"
  by (auto simp: visit_ClassDef_exit_def Let_def label_def split: sum.splits ctx.splits prod.splits)

lemma function_exit_labels:
  "visit_FunctionDef_exit name s = Inr s' \<Longrightarrow>
     map label (out s') = map label (out s) @ [(Function, name)]"
  "visit_FunctionDef_exit name s = Inl (e, s') \<Longrightarrow>
     map label (out s') = map label (out s) \<or>
     map label (out s') = map label (out s) @ [(Function, name)]"
  by (auto simp: visit_FunctionDef_exit_def Let_def label_def
      split: sum.splits ctx.splits prod.splits if_splits)

lemma visit_labels:
  "(\<forall>s'. visit n s = Inr s' \<longrightarrow> map label (out s') = map label (out s) @ postorder n) \<and>
   (\<forall>e s'. visit n s = Inl (e, s') \<longrightarrow>
      (\<exists>q. map label (out s') = map label (out s) @ q \<and> prefix q (postorder n)))"
  and generic_visit_labels:
  "(\<forall>s'. generic_visit cs s = Inr s' \<longrightarrow>
      map label (out s') = map label (out s) @ postorder_list cs) \<and>
   (\<forall>e s'. generic_visit cs s = Inl (e, s') \<longrightarrow>
      (\<exists>q. map label (out s') = map label (out s) @ q \<and> prefix q (postorder_list cs)))"
proof (induction n s and cs s rule: visit_generic_visit.induct)
  case (1 name body s)
  let ?s1 = "s\<lparr>stack := push (stack s) (ClassCtx [])\<rparr>"
  show ?case
  proof (cases "generic_visit body ?s1")
    case (Inl x)
    obtain e s1 where x: "x = (e, s1)" by (cases x)
    from 1 Inl x obtain q where "map label (out s1) = map label (out s) @ q"
      "prefix q (postorder_list body)"
      by auto
    with Inl x show ?thesis
      by (auto intro: prefix_prefix)
  next
    case (Inr s2)
    with 1 have o: "map label (out s2) = map label (out s) @ postorder_list body"
      by simp
    show ?thesis
    proof (intro conjI allI impI)
      fix s' assume "visit (ClassDef name body) s = Inr s'"
      with Inr have "visit_ClassDef_exit name s2 = Inr s'" by simp
      from class_exit_labels(1) [OF this] o
      show "map label (out s') = map label (out s) @ postorder (ClassDef name body)"
        by simp
    next
      fix e s' assume "visit (ClassDef name body) s = Inl (e, s')"
      with Inr have "visit_ClassDef_exit name s2 = Inl (e, s')" by simp
      from class_exit_labels(2) [OF this] o
      have "map label (out s') = map label (out s) @ postorder_list body"
        by simp
      then show "\<exists>q. map label (out s') = map label (out s) @ q \<and>
                  prefix q (postorder (ClassDef name body))"
        by auto
    qed
  qed
next
  case (2 name body s)
  let ?s1 = "s\<lparr>stack := push (stack s) (FuncCtx 0)\<rparr>"
  show ?case
  proof (cases "generic_visit body ?s1")
    case (Inl x)
    obtain e s1 where x: "x = (e, s1)" by (cases x)
    from 2 Inl x obtain q where "map label (out s1) = map label (out s) @ q"
      "prefix q (postorder_list body)"
      by auto
    with Inl x show ?thesis
      by (auto intro: prefix_prefix)
  next
    case (Inr s2)
    with 2 have o: "map label (out s2) = map label (out s) @ postorder_list body"
      by simp
    show ?thesis
    proof (intro conjI allI impI)
      fix s' assume "visit (FunctionDef name body) s = Inr s'"
      with Inr have "visit_FunctionDef_exit name s2 = Inr s'" by simp
      from function_exit_labels(1) [OF this] o
      show "map label (out s') = map label (out s) @ postorder (FunctionDef name body)"
        by simp
    next
      fix e s' assume "visit (FunctionDef name body) s = Inl (e, s')"
      with Inr have "visit_FunctionDef_exit name s2 = Inl (e, s')" by simp
      from function_exit_labels(2) [OF this] o
      have "map label (out s') = map label (out s) @ postorder_list body \<or>
            map label (out s') = map label (out s) @ postorder_list body @ [(Function, name)]"
        by simp
      then show "\<exists>q. map label (out s') = map label (out s) @ q \<and>
                  prefix q (postorder (FunctionDef name body))"
        by auto
    qed
  qed
next
  case (3 children s)
  then show ?case
    by (auto split: sum.splits)
next
  case (4 children s)
  then show ?case by simp
next
  case (5 s)
  then show ?case by simp
next
  case (6 c cs s)
  show ?case
  proof (cases "visit c s")
    case (Inl x)
    obtain e s1 where x: "x = (e, s1)" by (cases x)
    from "6.IH"(1) Inl x obtain q where "map label (out s1) = map label (out s) @ q"
      "prefix q (postorder c)"
      by auto
    with Inl x show ?thesis
      by (auto intro: prefix_prefix)
  next
    case (Inr s1)
    with "6.IH"(1) have o: "map label (out s1) = map label (out s) @ postorder c"
      by simp
    from "6.IH"(2) [OF Inr] Inr o show ?thesis
      by auto
  qed
qed

section \<open>The stack during a traversal\<close>



section \<open>Subtrees without scopes\<close>

lemma visit_scope_free:
  "len (stack s) = 0 \<Longrightarrow> scope_free n \<Longrightarrow> visit n s = Inr s"
  and generic_visit_scope_free:
  "len (stack s) = 0 \<Longrightarrow> scope_free_list cs \<Longrightarrow> generic_visit cs s = Inr s"
  by (induction n s and cs s rule: visit_generic_visit.induct) simp_all

section \<open>Running the analyzer on concrete trees\<close>

lemmas run_simps =
  analyze_def Analyzer_init_def Stack_init_def push_def pop_def peek_def len_def
  incr_calls_def append_function_def py_index_def visit_ClassDef_exit_def
  visit_FunctionDef_exit_def func_entropy_def MAX_CALLS_def reduce_mul_def

section \<open>The claims\<close>

text \<open>
  Claim C1 says that a class definition whose list of function scores is empty when its
  scope closes is reported with score 1, the empty product. The code calls \<^verbatim>\<open>reduce\<close>
  without an initial value, which raises TypeError on the empty list: for the program
  \<^verbatim>\<open>class C: pass\<close> the context of \<open>C\<close> has been popped, nothing has been printed, and
  the exception leaves the visitor.
\<close>

theorem class_without_functions_raises:
  "analyze (Other [ClassDef ''C'' [Other []]]) = Inl (TypeError, Analyzer_init)"
  by (simp add: run_simps)

text \<open>
  Claim C2 says that a call expression directly inside a class body, outside any function,
  does not crash and is counted nowhere. The code reads the key \<^verbatim>\<open>"calls"\<close> of the
  dictionary on top of the stack without looking at its type, while \<^verbatim>\<open>visit_FunctionDef\<close>
  does test the type before it touches \<^verbatim>\<open>"functions"\<close>: for the program
  \<^verbatim>\<open>class C: x = f()\<close> the visit of the call raises KeyError with the class context
  still on the stack.
\<close>

theorem call_in_class_body_raises:
  "analyze (Other [ClassDef ''C'' [Other [Other [Other []], Call [Other [Other []]]]]]) =
     Inl (KeyError, \<lparr>stack = \<lparr>inner = [ClassCtx []], depth = 0\<rparr>, out = []\<rparr>)"
  by (simp add: analyze_def Analyzer_init_def Stack_init_def push_def len_def incr_calls_def
      py_index_def)

text \<open>
  Claim C3 says that the score of a class that closes under a class context is appended to
  the function scores of that enclosing context. It is not: \<^verbatim>\<open>visit_ClassDef\<close> ends with
  its prints. In \<^verbatim>\<open>class A\<close> with a method \<open>g\<close> and a nested \<^verbatim>\<open>class B\<close> whose method
  \<open>f\<close> makes five calls, \<open>B\<close> closes with score \<open>1/2\<close> under the context of \<open>A\<close>, which
  holds \<open>[1]\<close> before and after; \<open>A\<close> is reported with one function and score 1, not
  with two functions and score \<open>1/2\<close>.
\<close>

theorem nested_class_counterexample:
  "analyze (Other [ClassDef ''A''
      [FunctionDef ''g'' [Other []],
       ClassDef ''B'' [FunctionDef ''f''
         [Call [Other []], Call [Other []], Call [Other []], Call [Other []], Call [Other []]]]]]) =
   Inr \<lparr>stack = Stack_init,
        out = [\<lparr>r_scope = Function, r_name = ''g'', r_count = 0, r_entropy = 1\<rparr>,
               \<lparr>r_scope = Function, r_name = ''f'', r_count = 5, r_entropy = 1 / 2\<rparr>,
               \<lparr>r_scope = Class, r_name = ''B'', r_count = 1, r_entropy = 1 / 2\<rparr>,
               \<lparr>r_scope = Class, r_name = ''A'', r_count = 1, r_entropy = 1\<rparr>]\<rparr> \<and>
   visit (ClassDef ''B'' [FunctionDef ''f''
         [Call [Other []], Call [Other []], Call [Other []], Call [Other []], Call [Other []]]])
     \<lparr>stack = \<lparr>inner = [ClassCtx [1]], depth = 0\<rparr>, out = []\<rparr> =
   Inr \<lparr>stack = \<lparr>inner = [ClassCtx [1]], depth = 0\<rparr>,
        out = [\<lparr>r_scope = Function, r_name = ''f'', r_count = 5, r_entropy = 1 / 2\<rparr>,
               \<lparr>r_scope = Class, r_name = ''B'', r_count = 1, r_entropy = 1 / 2\<rparr>]\<rparr> \<and>
   [ClassCtx [1]] \<noteq> [ClassCtx [1, 1 / 2]]"
  by (simp add: run_simps)

text \<open>
  Claim C3 as amended. Whenever the visit of a class definition returns, the context
  stack is exactly what it was before the class was entered: the score of the closed class
  is appended to nothing, whatever the exposed top of the stack is.
\<close>

theorem class_exit_restores_stack:
  assumes "stack_inv (stack s)" and "visit (ClassDef name body) s = Inr s'"
  shows "stack s' = stack s"
proof -
  from assms(1) obtain xs where xs: "stack s = stack_of xs"
    by (auto simp: stack_inv_iff)
  from visit_ok [OF xs assms(2)] xs show ?thesis
    by simp
qed

theorem class_exit_restores_stack_witness:
  "stack_inv (stack \<lparr>stack = \<lparr>inner = [ClassCtx [1]], depth = 0\<rparr>, out = []\<rparr>) \<and>
   visit (ClassDef ''B'' [FunctionDef ''f'' [Other []]])
     \<lparr>stack = \<lparr>inner = [ClassCtx [1]], depth = 0\<rparr>, out = []\<rparr> =
   Inr \<lparr>stack = \<lparr>inner = [ClassCtx [1]], depth = 0\<rparr>,
        out = [\<lparr>r_scope = Function, r_name = ''f'', r_count = 0, r_entropy = 1\<rparr>,
               \<lparr>r_scope = Class, r_name = ''B'', r_count = 1, r_entropy = 1\<rparr>]\<rparr> \<and>
   stack \<lparr>stack = \<lparr>inner = [ClassCtx [1]], depth = 0\<rparr>,
        out = [\<lparr>r_scope = Function, r_name = ''f'', r_count = 0, r_entropy = 1\<rparr>,
               \<lparr>r_scope = Class, r_name = ''B'', r_count = 1, r_entropy = 1\<rparr>]\<rparr> =
   stack \<lparr>stack = \<lparr>inner = [ClassCtx [1]], depth = 0\<rparr>, out = []\<rparr>"
proof -
  let ?s = "\<lparr>stack = \<lparr>inner = [ClassCtx [1]], depth = 0\<rparr>, out = []\<rparr>"
  let ?s' = "\<lparr>stack = \<lparr>inner = [ClassCtx [1]], depth = 0\<rparr>,
        out = [\<lparr>r_scope = Function, r_name = ''f'', r_count = 0, r_entropy = 1\<rparr>,
               \<lparr>r_scope = Class, r_name = ''B'', r_count = 1, r_entropy = 1\<rparr>]\<rparr>"
  have i: "stack_inv (stack ?s)"
    by (simp add: stack_inv_def)
  have v: "visit (ClassDef ''B'' [FunctionDef ''f'' [Other []]]) ?s = Inr ?s'"
    by (simp add: run_simps)
  from class_exit_restores_stack [OF i v] i v show ?thesis
    by simp
qed



text \<open>
  Claim C5. The visit of a function definition, nested in whatever scopes, leaves the
  counter of every context that was on the stack as it was, so no enclosing function is
  charged for a call inside the inner one; and the count printed for the inner function is
  the number of call expressions in its subtree whose nearest enclosing function
  definition it is.
\<close>

theorem nested_function_calls:
  assumes "stack_inv (stack s)" and "visit (FunctionDef name body) s = Inr s'"
  shows "map calls_of (inner (stack s')) = map calls_of (inner (stack s)) \<and>
         last (out s') =
           \<lparr>r_scope = Function, r_name = name, r_count = fn_calls_list body,
             r_entropy = clamp_score (fn_calls_list body)\<rparr>"
proof -
  from assms(1) obtain xs where xs: "stack s = stack_of xs"
    by (auto simp: stack_inv_iff)
  from assms(2) obtain s2
    where g: "generic_visit body (s\<lparr>stack := push (stack s) (FuncCtx 0)\<rparr>) = Inr s2"
    by (auto split: sum.splits)
  from xs have "stack (s\<lparr>stack := push (stack s) (FuncCtx 0)\<rparr>) = stack_of (xs @ [FuncCtx 0])"
    by simp
  from generic_visit_calls [OF this g] have "fn_calls_list body = own_calls_list body"
    by simp
  with visit_ok [OF xs assms(2)] xs show ?thesis
    by simp
qed

theorem nested_function_calls_witness:
  "stack_inv (stack \<lparr>stack = \<lparr>inner = [FuncCtx 2], depth = 0\<rparr>, out = []\<rparr>) \<and>
   visit (FunctionDef ''g'' [Call [Other []], Call [Other []], Call [Other []]])
     \<lparr>stack = \<lparr>inner = [FuncCtx 2], depth = 0\<rparr>, out = []\<rparr> =
   Inr \<lparr>stack = \<lparr>inner = [FuncCtx 2], depth = 0\<rparr>,
        out = [\<lparr>r_scope = Function, r_name = ''g'', r_count = 3, r_entropy = 7 / 10\<rparr>]\<rparr> \<and>
   map calls_of [FuncCtx 2] = [Some 2] \<and>
   fn_calls_list [Call [Other []], Call [Other []], Call [Other []]] = 3"
proof -
  let ?s = "\<lparr>stack = \<lparr>inner = [FuncCtx 2], depth = 0\<rparr>, out = []\<rparr>"
  let ?s' = "\<lparr>stack = \<lparr>inner = [FuncCtx 2], depth = 0\<rparr>,
        out = [\<lparr>r_scope = Function, r_name = ''g'', r_count = 3, r_entropy = 7 / 10\<rparr>]\<rparr>"
  have i: "stack_inv (stack ?s)"
    by (simp add: stack_inv_def)
  have v: "visit (FunctionDef ''g'' [Call [Other []], Call [Other []], Call [Other []]]) ?s =
     Inr ?s'"
    by (simp add: run_simps)
  from nested_function_calls [OF i v] i v show ?thesis
    by simp
qed

text \<open>
  Claim C6. For every tree the printed blocks come in the order in which their scopes
  close: what has been printed when the traversal ends, by return or by exception, is a
  prefix of the post-order list of the scopes of the tree, and the whole list when the
  traversal returns. For \<^verbatim>\<open>class C: def f(): def g(): pass\<close> the blocks are those of
  \<open>g\<close>, \<open>f\<close> and \<open>C\<close>, in this order.
\<close>

theorem emission_order:
  "prefix (map label (out (final (analyze t)))) (postorder t) \<and>
   (\<forall>s. analyze t = Inr s \<longrightarrow> map label (out s) = postorder t) \<and>
   map label (out (final (analyze
     (Other [ClassDef ''C''
       [FunctionDef ''f'' [Other [], FunctionDef ''g'' [Other [], Other []]]]])))) =
     [(Function, ''g''), (Function, ''f''), (Class, ''C'')]"
proof (intro conjI)
  show "prefix (map label (out (final (analyze t)))) (postorder t)"
  proof (cases "analyze t")
    case (Inl x)
    obtain e s where "x = (e, s)" by (cases x)
    with Inl visit_labels [of t Analyzer_init] show ?thesis
      by (auto simp: analyze_def Analyzer_init_def)
  next
    case (Inr s)
    with visit_labels [of t Analyzer_init] show ?thesis
      by (auto simp: analyze_def Analyzer_init_def)
  qed
  show "\<forall>s. analyze t = Inr s \<longrightarrow> map label (out s) = postorder t"
    using visit_labels [of t Analyzer_init]
    by (auto simp: analyze_def Analyzer_init_def)
  let ?t = "Other [ClassDef ''C''
       [FunctionDef ''f'' [Other [], FunctionDef ''g'' [Other [], Other []]]]]"
  have "stack Analyzer_init = stack_of []"
    by (simp add: Analyzer_init_def Stack_init_stack_of)
  have "analyze ?t =
    Inr \<lparr>stack = stack_of [],
         out = [\<lparr>r_scope = Function, r_name = ''g'', r_count = 0, r_entropy = 1\<rparr>,
                \<lparr>r_scope = Function, r_name = ''f'', r_count = 0, r_entropy = 1\<rparr>,
                \<lparr>r_scope = Class, r_name = ''C'', r_count = 1, r_entropy = 1\<rparr>]\<rparr>"
    by (simp add: analyze_def Analyzer_init_def Stack_init_stack_of
        visit_FunctionDef_exit_def visit_ClassDef_exit_def pop_stack_of peek_stack_of
        append_function_stack_of reduce_mul_def top_apply_def clamp_score_def)
  then show "map label (out (final (analyze ?t))) =
     [(Function, ''g''), (Function, ''f''), (Class, ''C'')]"
    by (simp add: label_def)
qed

theorem emission_order_witness:
  "analyze (Other [ClassDef ''C''
       [FunctionDef ''f'' [Other [], FunctionDef ''g'' [Other [], Other []]]]]) =
     Inr \<lparr>stack = Stack_init,
          out = [\<lparr>r_scope = Function, r_name = ''g'', r_count = 0, r_entropy = 1\<rparr>,
                 \<lparr>r_scope = Function, r_name = ''f'', r_count = 0, r_entropy = 1\<rparr>,
                 \<lparr>r_scope = Class, r_name = ''C'', r_count = 1, r_entropy = 1\<rparr>]\<rparr> \<and>
   postorder (Other [ClassDef ''C''
       [FunctionDef ''f'' [Other [], FunctionDef ''g'' [Other [], Other []]]]]) =
     [(Function, ''g''), (Function, ''f''), (Class, ''C'')]"
proof -
  let ?t = "Other [ClassDef ''C''
       [FunctionDef ''f'' [Other [], FunctionDef ''g'' [Other [], Other []]]]]"
  let ?s = "\<lparr>stack = Stack_init,
          out = [\<lparr>r_scope = Function, r_name = ''g'', r_count = 0, r_entropy = 1\<rparr>,
                 \<lparr>r_scope = Function, r_name = ''f'', r_count = 0, r_entropy = 1\<rparr>,
                 \<lparr>r_scope = Class, r_name = ''C'', r_count = 1, r_entropy = 1\<rparr>]\<rparr>"
  have a: "analyze ?t = Inr ?s"
    by (simp add: run_simps)
  from emission_order [of ?t] a have "map label (out ?s) = postorder ?t"
    by blast
  with a show ?thesis
    by (simp add: label_def)
qed





text \<open>
  Claim C9. The blocks printed by a traversal that returns are \<open>emits\<close> of the tree, a
  function of the tree alone; the stack of the analyzer is then the stack of a fresh
  analyzer, so nothing is carried over, and a second traversal of the same tree from the
  state the first one left (with an empty output) gives the same outcome as the first.
\<close>

theorem analyze_pure:
  assumes "analyze t = Inr s"
  shows "out s = emits t \<and> stack s = Stack_init \<and> visit t (s\<lparr>out := []\<rparr>) = Inr s"
proof -
  have i: "stack Analyzer_init = stack_of []"
    by (simp add: Analyzer_init_def Stack_init_stack_of)
  from assms have v: "visit t Analyzer_init = Inr s"
    by (simp add: analyze_def)
  from visit_ok [OF i v] have a: "out s = emits t" and b: "stack s = Stack_init"
    by (simp_all add: Analyzer_init_def Stack_init_stack_of)
  from b have "s\<lparr>out := []\<rparr> = Analyzer_init"
    by (cases s) (simp add: Analyzer_init_def)
  with v a b show ?thesis by simp
qed

theorem analyze_pure_witness:
  "analyze (Other [ClassDef ''C'' [FunctionDef ''f'' [Call []]]]) =
     Inr \<lparr>stack = Stack_init,
          out = [\<lparr>r_scope = Function, r_name = ''f'', r_count = 1, r_entropy = 9 / 10\<rparr>,
                 \<lparr>r_scope = Class, r_name = ''C'', r_count = 1, r_entropy = 9 / 10\<rparr>]\<rparr> \<and>
   emits (Other [ClassDef ''C'' [FunctionDef ''f'' [Call []]]]) =
     [\<lparr>r_scope = Function, r_name = ''f'', r_count = 1, r_entropy = 9 / 10\<rparr>,
      \<lparr>r_scope = Class, r_name = ''C'', r_count = 1, r_entropy = 9 / 10\<rparr>] \<and>
   visit (Other [ClassDef ''C'' [FunctionDef ''f'' [Call []]]])
     \<lparr>stack = Stack_init, out = []\<rparr> =
     Inr \<lparr>stack = Stack_init,
          out = [\<lparr>r_scope = Function, r_name = ''f'', r_count = 1, r_entropy = 9 / 10\<rparr>,
                 \<lparr>r_scope = Class, r_name = ''C'', r_count = 1, r_entropy = 9 / 10\<rparr>]\<rparr>"
proof -
  let ?t = "Other [ClassDef ''C'' [FunctionDef ''f'' [Call []]]]"
  let ?s = "\<lparr>stack = Stack_init,
          out = [\<lparr>r_scope = Function, r_name = ''f'', r_count = 1, r_entropy = 9 / 10\<rparr>,
                 \<lparr>r_scope = Class, r_name = ''C'', r_count = 1, r_entropy = 9 / 10\<rparr>]\<rparr>"
  have a: "analyze ?t = Inr ?s"
    by (simp add: run_simps)
  from analyze_pure [OF a] a show ?thesis
    by simp
qed

end
